theory Spec2Isabelle
  imports
    Main
    "HOL-Library.AList"
    "HOL-Library.Char_ord"
    "HOL-Library.List_Lexorder"
    "HOL-Library.Option_ord"
begin

section \<open>Overheard: quotes, votes and voters (models.py)\<close>

text \<open>
  A shallow embedding of \<^verbatim>\<open>models.py\<close>.  The datastore is a record of association
  lists, one per entity kind, keyed the way the source keys its entities: a Quote by its
  numeric id, a Vote by the id of its parent Quote and its key name (the voter's email),
  a Voter by its key name.  Memcache is one more association list.  Python integers are
  unbounded, so every integer is an \<open>int\<close>; what an integer or string property accepts
  is checked where the source assigns it.  Strings are compared lexicographically by
  character code, as the datastore compares them.  A function of the source that writes
  to the datastore takes the store and returns the new one; an uncaught Python exception
  is the \<open>Inl\<close> branch of the result, and a transaction that raises leaves the store as
  it was.  Ids are natural numbers; a user's email is the key name of that user's entities.
\<close>

subsection \<open>Constants and entities\<close>

definition PAGE_SIZE :: nat where
  "PAGE_SIZE = 20"

definition DAY_SCALE :: int where
  "DAY_SCALE = 4"

datatype user = User (email: string)

record Quote =
  quote :: string
  uri :: "string option"
  rank :: "string option"
  created :: int
  creation_order :: string
  votesum :: int
  creator :: "user option"

record Vote =
  vote :: int

record Voter =
  count :: int
  hasVoted :: bool
  hasAddedQuote :: bool

text \<open>
  Besides the entities and the cache, the store holds the last id the datastore handed
  out and the greatest length it accepts for the value of a \<^verbatim>\<open>StringProperty\<close>, a
  constant of the service that no function changes (\<^verbatim>\<open>main.py\<close> cuts a quote to 500
  characters).
\<close>

record store =
  quotes :: "(nat \<times> Quote) list"
  votes :: "((nat \<times> string) \<times> Vote) list"
  voters :: "(string \<times> Voter) list"
  memcache :: "(string \<times> int) list"
  last_id :: nat
  max_length :: nat

text \<open>The exceptions that the functions below can raise.  The last three are the
  datastore's and are subclasses of \<^verbatim>\<open>db.Error\<close>; the first two are not.\<close>

datatype error = AttributeError | AssertionError | BadValueError | BadKeyError | BadRequestError


text \<open>What the request supplies besides the arguments: the clock, read once by
  \<^verbatim>\<open>add_quote\<close>, and whether the current user is an administrator.\<close>

record env =
  now_isoformat :: string
  now_days :: int
  is_current_user_admin :: bool

subsection \<open>Validation of property values\<close>

text \<open>An \<^verbatim>\<open>IntegerProperty\<close> accepts the integers of 64 bits, a \<^verbatim>\<open>StringProperty\<close> the
  strings up to the greatest length, without a line feed unless it is declared
  \<^verbatim>\<open>multiline\<close>.  Another value raises \<^verbatim>\<open>BadValueError\<close>.\<close>

definition fits_64 :: "int \<Rightarrow> bool" where
  "fits_64 i = (- (2 ^ 63) \<le> i \<and> i < 2 ^ 63)"

definition valid_string :: "nat \<Rightarrow> bool \<Rightarrow> string \<Rightarrow> bool" where
  "valid_string limit multiline v = ((multiline \<or> CHR 0x0A \<notin> set v) \<and> length v \<le> limit)"

subsection \<open>Python string formatting\<close>

definition digit_char :: "nat \<Rightarrow> char" where
  "digit_char d = ''0123456789'' ! (d mod 10)"

text \<open>\<^verbatim>\<open>str(n)\<close> for a non-negative integer: its decimal digits, no padding.\<close>

function str_nat :: "nat \<Rightarrow> string" where
  "str_nat n = (if n < 10 then [digit_char n] else str_nat (n div 10) @ [digit_char (n mod 10)])"
  by pat_completeness auto
termination
  by (relation "measure id") auto

declare str_nat.simps [simp del]


text \<open>\<^verbatim>\<open>"%020d" % i\<close>: the sign, if any, then zeros up to a total width of 20, then the
  digits of the absolute value; a longer number is printed in full.\<close>

definition fmt_020d :: "int \<Rightarrow> string" where
  "fmt_020d i =
     (let sign = (if i < 0 then ''-'' else '''');
          ds = str_nat (nat \<bar>i\<bar>)
      in sign @ replicate (20 - length sign - length ds) (CHR ''0'') @ ds)"

subsection \<open>Voters\<close>

definition get_or_create_voter :: "store \<Rightarrow> user \<Rightarrow> Voter" where
  "get_or_create_voter s u =
     (case map_of (voters s) (email u) of
        None \<Rightarrow> \<lparr>count = 0, hasVoted = False, hasAddedQuote = False\<rparr>
      | Some voter \<Rightarrow> voter)"

definition get_progress :: "store \<Rightarrow> user \<Rightarrow> bool \<times> bool" where
  "get_progress s u = (let voter = get_or_create_voter s u in (hasVoted voter, hasAddedQuote voter))"

definition set_progress_hasVoted :: "store \<Rightarrow> user \<Rightarrow> store" where
  "set_progress_hasVoted s u =
     (let voter = get_or_create_voter s u
      in if \<not> hasVoted voter
         then s\<lparr>voters := AList.update (email u) (voter\<lparr>hasVoted := True\<rparr>) (voters s)\<rparr>
         else s)"


subsection \<open>Adding, deleting and reading quotes\<close>

text \<open>
  \<^verbatim>\<open>Quote.get_by_id\<close>: the id 0 is not the id of a complete key and raises
  \<^verbatim>\<open>BadKeyError\<close>; another id gives the quote stored under it, or \<open>None\<close>.
\<close>

definition get_by_id :: "store \<Rightarrow> nat \<Rightarrow> error + Quote option" where
  "get_by_id s quote_id = (if quote_id = 0 then Inl BadKeyError else Inr (map_of (quotes s) quote_id))"


text \<open>\<^verbatim>\<open>del_quote\<close>: \<^verbatim>\<open>q.creator == user\<close> compares two values that may both be
  \<open>None\<close>.\<close>

definition del_quote :: "env \<Rightarrow> store \<Rightarrow> nat \<Rightarrow> user option \<Rightarrow> (error + unit) \<times> store" where
  "del_quote e s quote_id usr =
     (case get_by_id s quote_id of
        Inl err \<Rightarrow> (Inl err, s)
      | Inr None \<Rightarrow> (Inr (), s)
      | Inr (Some q) \<Rightarrow>
          if is_current_user_admin e \<or> creator q = usr
          then (Inr (), s\<lparr>quotes := AList.delete quote_id (quotes s)\<rparr>)
          else (Inr (), s))"

definition get_quote :: "store \<Rightarrow> nat \<Rightarrow> error + Quote option" where
  "get_quote s quote_id = get_by_id s quote_id"

subsection \<open>Paging\<close>

text \<open>
  A query result is a list of entities, each a key (the id) with its properties.
  \<^verbatim>\<open>ORDER BY p DESC\<close> lists the entities by descending \<open>p\<close>, and entities with the
  same \<open>p\<close> by ascending key; a property without a value sorts below every string.
  The sort on \<open>p\<close> is stable, so it is applied to the entities in descending key order
  and the result is reversed.
\<close>

definition order_by_desc :: "(nat \<times> Quote \<Rightarrow> 'k::linorder) \<Rightarrow> (nat \<times> Quote) list \<Rightarrow> (nat \<times> Quote) list" where
  "order_by_desc p qs = rev (sort_key p (rev (sort_key fst qs)))"

definition get_quotes_newest :: "store \<Rightarrow> string option \<Rightarrow> (nat \<times> Quote) list \<times> string option" where
  "get_quotes_newest s offset =
     (let fetched =
            (case offset of
               None \<Rightarrow> take (PAGE_SIZE + 1) (order_by_desc (\<lambda>q. creation_order (snd q)) (quotes s))
             | Some c \<Rightarrow>
                 take (PAGE_SIZE + 1)
                   (order_by_desc (\<lambda>q. creation_order (snd q))
                      (filter (\<lambda>q. creation_order (snd q) \<le> c) (quotes s))))
      in if length fetched > PAGE_SIZE
         then (take PAGE_SIZE fetched, Some (creation_order (snd (last fetched))))
         else (fetched, None))"

definition get_quotes ::
  "store \<Rightarrow> int \<Rightarrow> error + ((nat \<times> Quote) list \<times> (nat \<times> Quote) option)" where
  "get_quotes s page =
     (if \<not> page \<ge> 0 then Inl AssertionError
      else if \<not> page < 20 then Inl AssertionError
      else
        (let fetched = take (PAGE_SIZE + 1)
               (drop (nat page * PAGE_SIZE) (order_by_desc (\<lambda>q. rank (snd q)) (quotes s)))
         in if length fetched > PAGE_SIZE
            then Inr (take PAGE_SIZE fetched, if page < 19 then Some (last fetched) else None)
            else Inr (fetched, None)))"

subsection \<open>Voting\<close>

text \<open>
  The transaction of \<^verbatim>\<open>set_vote\<close>.  \<^verbatim>\<open>Quote.get_by_id\<close> gives \<open>None\<close> for an id without
  a quote; the vote is then looked up without a parent, under a key that is not in the
  entity group the transaction has read from, which raises \<^verbatim>\<open>BadRequestError\<close>.  With
  a quote, the vote is the stored one or a new one of value 0.  The assignments to
  \<^verbatim>\<open>quote.votesum\<close>, \<^verbatim>\<open>vote.vote\<close> and \<^verbatim>\<open>quote.rank\<close> are validated in this order;
  nothing has been written when one of them raises.
\<close>

definition set_vote_txn :: "store \<Rightarrow> nat \<Rightarrow> user \<Rightarrow> int \<Rightarrow> error + store" where
  "set_vote_txn s quote_id u newvote =
     (case get_by_id s quote_id of
        Inl err \<Rightarrow> Inl err
      | Inr None \<Rightarrow> Inl BadRequestError
      | Inr (Some q) \<Rightarrow>
          (let vote0 = (case map_of (votes s) (quote_id, email u) of
                          None \<Rightarrow> \<lparr>vote = 0\<rparr>
                        | Some v \<Rightarrow> v)
           in if vote vote0 = newvote then Inr s
              else if \<not> fits_64 (votesum q - vote vote0 + newvote) then Inl BadValueError
              else if \<not> fits_64 newvote then Inl BadValueError
              else
                (let q1 = q\<lparr>votesum := votesum q - vote vote0 + newvote\<rparr>;
                     vote1 = vote0\<lparr>vote := newvote\<rparr>;
                     new_rank = fmt_020d (created q1 * DAY_SCALE + votesum q1)
                                  @ ''|'' @ creation_order q1
                 in if \<not> valid_string (max_length s) False new_rank then Inl BadValueError
                    else
                      (let q2 = q1\<lparr>rank := Some new_rank\<rparr>
                       in Inr (s\<lparr>votes := AList.update (quote_id, email u) vote1 (votes s),
                                 quotes := AList.update quote_id q2 (quotes s),
                                 memcache := AList.update
                                    (''vote|'' @ email u @ ''|'' @ str_nat quote_id) (vote vote1)
                                    (memcache s)\<rparr>)))))"

definition set_vote :: "store \<Rightarrow> nat \<Rightarrow> user option \<Rightarrow> int \<Rightarrow> (error + unit) \<times> store" where
  "set_vote s quote_id usr newvote =
     (case usr of
        None \<Rightarrow> (Inr (), s)
      | Some u \<Rightarrow>
          (case set_vote_txn s quote_id u newvote of
             Inl err \<Rightarrow> (Inl err, s)
           | Inr s1 \<Rightarrow> (Inr (), set_progress_hasVoted s1 u)))"

text \<open>\<^verbatim>\<open>voted\<close>: 0 for no user; else the cached value if there is one; else the stored
  vote, which is then cached; else \<open>None\<close>, which is what the lookup in the cache left
  in \<^verbatim>\<open>val\<close>.\<close>

definition voted :: "store \<Rightarrow> nat \<times> Quote \<Rightarrow> user option \<Rightarrow> int option \<times> store" where
  "voted s q usr =
     (case usr of
        None \<Rightarrow> (Some 0, s)
      | Some u \<Rightarrow>
          (let memcachekey = ''vote|'' @ email u @ ''|'' @ str_nat (fst q)
           in case map_of (memcache s) memcachekey of
                Some val \<Rightarrow> (Some val, s)
              | None \<Rightarrow>
                  (case map_of (votes s) (fst q, email u) of
                     None \<Rightarrow> (None, s)
                   | Some v \<Rightarrow>
                       (Some (vote v),
                        s\<lparr>memcache := AList.update memcachekey (vote v) (memcache s)\<rparr>))))"

subsection \<open>Observations and drivers used to state the properties\<close>

text \<open>The value of the vote that a user (by email) has stored on a quote; no Vote entity
  counts as 0, the default of the property.\<close>

definition stored_vote :: "store \<Rightarrow> nat \<Rightarrow> string \<Rightarrow> int" where
  "stored_vote s quote_id em =
     (case map_of (votes s) (quote_id, em) of None \<Rightarrow> 0 | Some v \<Rightarrow> vote v)"

text \<open>The sum of the values of all Vote entities whose parent is the quote.\<close>

definition vote_total :: "store \<Rightarrow> nat \<Rightarrow> int" where
  "vote_total s quote_id =
     sum_list (map (\<lambda>kv. vote (snd kv)) (filter (\<lambda>kv. fst (fst kv) = quote_id) (votes s)))"

text \<open>The emails of the users that have a Vote entity under the quote.\<close>

definition voters_on :: "store \<Rightarrow> nat \<Rightarrow> string set" where
  "voters_on s quote_id = snd ` {k \<in> fst ` set (votes s). fst k = quote_id}"

text \<open>Whether the three values that a changing vote assigns pass validation: the new
  votesum, the new value, and the rank made from the new votesum.\<close>

definition assignable :: "store \<Rightarrow> Quote \<Rightarrow> int \<Rightarrow> int \<Rightarrow> bool" where
  "assignable s q old newvote =
     (fits_64 (votesum q - old + newvote) \<and> fits_64 newvote
      \<and> valid_string (max_length s) False
           (fmt_020d (created q * DAY_SCALE + (votesum q - old + newvote)) @ ''|'' @ creation_order q))"

text \<open>A sequence of \<^verbatim>\<open>set_vote\<close> calls on one quote, each by a signed-in user and each
  a request of its own: a call that raises does not keep the later ones from being made.
  The result is the calls that returned normally, in their order, and the final store.\<close>

fun cast_votes :: "store \<Rightarrow> nat \<Rightarrow> (user \<times> int) list \<Rightarrow> (user \<times> int) list \<times> store" where
  "cast_votes s quote_id [] = ([], s)"
| "cast_votes s quote_id ((u, v) # cs) =
     (case set_vote s quote_id (Some u) v of
        (Inl err, s1) \<Rightarrow> cast_votes s1 quote_id cs
      | (Inr _, s1) \<Rightarrow> (case cast_votes s1 quote_id cs of (returned, s2) \<Rightarrow> ((u, v) # returned, s2)))"

text \<open>The value of the last call in the sequence made under the given email, if any.\<close>

definition latest_vote :: "(user \<times> int) list \<Rightarrow> string \<Rightarrow> int option" where
  "latest_vote cs em = map_of (rev (map (\<lambda>(u, v). (email u, v)) cs)) em"

text \<open>
  The reader of the recency listing: \<^verbatim>\<open>get_quotes_newest\<close> without an offset, then
  with each returned \<^verbatim>\<open>extra\<close> until it is \<open>None\<close>.  The first argument bounds the
  number of calls; \<open>None\<close> means the bound was reached before the listing ended.
\<close>

fun page_through :: "nat \<Rightarrow> store \<Rightarrow> string option \<Rightarrow> (nat \<times> Quote) list list option" where
  "page_through 0 s offset = None"
| "page_through (Suc n) s offset =
     (case get_quotes_newest s offset of
        (page, None) \<Rightarrow> Some [page]
      | (page, Some extra) \<Rightarrow> map_option ((#) page) (page_through n s (Some extra)))"

text \<open>The zero-padded decimal of a given number of digits, as the specification words
  the rank key: the last \<open>k\<close> decimal digits of \<open>n\<close>, which are all of them when
  \<open>n < 10 ^ k\<close>.\<close>

fun zero_padded_decimal :: "nat \<Rightarrow> nat \<Rightarrow> string" where
  "zero_padded_decimal 0 n = []"
| "zero_padded_decimal (Suc k) n = zero_padded_decimal k (n div 10) @ [digit_char (n mod 10)]"

text \<open>The property that the recency listing is ordered by.\<close>

abbreviation order_key :: "nat \<times> Quote \<Rightarrow> string" where
  "order_key \<equiv> (\<lambda>q. creation_order (snd q))"

subsection \<open>A small store for concrete runs\<close>

definition fred :: user where
  "fred = User ''fred@example.com''"

definition barney :: user where
  "barney = User ''barney@example.com''"

definition ex_env :: env where
  "ex_env = \<lparr>now_isoformat = ''2008-10-02T12:00:00.123456'', now_days = 1,
              is_current_user_admin = False\<rparr>"

definition empty_store :: store where
  "empty_store = \<lparr>quotes = [], votes = [], voters = [], memcache = [], last_id = 0,
                   max_length = 500\<rparr>"

definition ex_quote :: Quote where
  "ex_quote = \<lparr>quote = ''This is a test.'', uri = None, rank = None, created = 1,
                creation_order = ''2008-10-02T12:00:00|a'', votesum = 0, creator = Some fred\<rparr>"

definition ex_store :: store where
  "ex_store = \<lparr>quotes = [(5, ex_quote)], votes = [],
                voters = [(''fred@example.com'', \<lparr>count = 1, hasVoted = False, hasAddedQuote = True\<rparr>)],
                memcache = [], last_id = 5, max_length = 500\<rparr>"

text \<open>The same store after fred has voted 1 on the quote.\<close>

definition voted_store :: store where
  "voted_store =
     \<lparr>quotes = [(5, ex_quote\<lparr>rank := Some ''00000000000000000005|2008-10-02T12:00:00|a'',
                               votesum := 1\<rparr>)],
      votes = [((5, ''fred@example.com''), \<lparr>vote = 1\<rparr>)],
      voters = [(''fred@example.com'', \<lparr>count = 1, hasVoted = True, hasAddedQuote = True\<rparr>)],
      memcache = [(''vote|fred@example.com|5'', 1)], last_id = 5, max_length = 500\<rparr>"

definition ex_casts :: "(user \<times> int) list" where
  "ex_casts = [(fred, 1), (barney, - 1), (fred, - 1)]"

text \<open>Two calls of which the second would take the votesum to \<open>2 ^ 63\<close>.\<close>

definition big_casts :: "(user \<times> int) list" where
  "big_casts = [(fred, 9223372036854775807), (barney, 1)]"

text \<open>The store after the first of them.\<close>

definition big_store :: store where
  "big_store =
     \<lparr>quotes = [(5, ex_quote\<lparr>rank := Some ''09223372036854775811|2008-10-02T12:00:00|a'',
                               votesum := 9223372036854775807\<rparr>)],
      votes = [((5, ''fred@example.com''), \<lparr>vote = 9223372036854775807\<rparr>)],
      voters = [(''fred@example.com'', \<lparr>count = 1, hasVoted = True, hasAddedQuote = True\<rparr>)],
      memcache = [(''vote|fred@example.com|5'', 9223372036854775807)], last_id = 5,
      max_length = 500\<rparr>"

text \<open>Two quotes of day 1, as \<^verbatim>\<open>add_quote(..., _created=1)\<close> leaves them.\<close>

definition two_quotes :: store where
  "two_quotes =
     \<lparr>quotes = [(1, ex_quote), (2, ex_quote\<lparr>creation_order := ''2008-10-02T12:00:01|b''\<rparr>)],
      votes = [],
      voters = [(''fred@example.com'', \<lparr>count = 2, hasVoted = False, hasAddedQuote = True\<rparr>)],
      memcache = [], last_id = 2, max_length = 500\<rparr>"

text \<open>Twenty-one quotes, one more than a page, with the creation orders
  \<open>100, \<dots>, 120\<close> under the ids \<open>1, \<dots>, 21\<close>.\<close>

definition many_quotes :: store where
  "many_quotes =
     \<lparr>quotes = map (\<lambda>i. (Suc i, ex_quote\<lparr>creation_order := str_nat (100 + i)\<rparr>)) [0..<21],
      votes = [],
      voters = [(''fred@example.com'', \<lparr>count = 21, hasVoted = False, hasAddedQuote = True\<rparr>)],
      memcache = [], last_id = 21, max_length = 500\<rparr>"

section \<open>Properties\<close>

subsection \<open>Auxiliary facts about the formatting\<close>

text \<open>For a score from 0 up to \<open>10 ^ 20\<close>, \<^verbatim>\<open>"%020d"\<close> is the zero-padded decimal of
  20 digits, and on these scores the order of the strings is the order of the scores.\<close>

lemma digit_cases:
  assumes "d < (10::nat)"
  shows "d = 0 \<or> d = 1 \<or> d = 2 \<or> d = 3 \<or> d = 4 \<or> d = 5 \<or> d = 6 \<or> d = 7 \<or> d = 8 \<or> d = 9"
  using assms by arith

lemma digit_char_code: "d < 10 \<Longrightarrow> of_char (digit_char d) = 48 + d"
  using digit_cases[of d] by (auto simp: digit_char_def)

lemma digit_char_less: "x < y \<Longrightarrow> y < 10 \<Longrightarrow> digit_char x < digit_char y"
  by (simp add: less_char_def digit_char_code)

lemma digit_char_zero: "digit_char 0 = CHR ''0''"
  by (simp add: digit_char_def)

lemma length_zero_padded_decimal [simp]: "length (zero_padded_decimal k n) = k"
  by (induction k arbitrary: n) simp_all

lemma zero_padded_decimal_zero: "zero_padded_decimal k 0 = replicate k (CHR ''0'')"
  by (induction k) (simp_all add: digit_char_zero replicate_append_same)

lemma str_nat_zero_padded:
  "n < 10 ^ k \<Longrightarrow> 0 < k \<Longrightarrow> replicate (k - length (str_nat n)) (CHR ''0'') @ str_nat n = zero_padded_decimal k n"
proof (induction k arbitrary: n)
  case 0
  then show ?case by simp
next
  case (Suc k)
  show ?case
  proof (cases "n < 10")
    case True
    then show ?thesis
      by (simp add: str_nat.simps[of n] zero_padded_decimal_zero)
  next
    case False
    then have k: "0 < k" using Suc.prems(1) by (cases k) auto
    have d: "n div 10 < 10 ^ k" using Suc.prems(1) by (simp add: less_mult_imp_div_less mult.commute)
    have len: "length (str_nat (n div 10)) \<le> k"
      using Suc.IH[OF d k] length_zero_padded_decimal[of k "n div 10"]
      by (metis length_append le_add2)
    show ?thesis
      using False Suc.IH[OF d k] len
      by (simp add: str_nat.simps[of n] Suc_diff_le)
  qed
qed

lemma zero_padded_decimal_mono: "a < b \<Longrightarrow> b < 10 ^ k \<Longrightarrow> zero_padded_decimal k a < zero_padded_decimal k b"
proof (induction k arbitrary: a b)
  case 0
  then show ?case by simp
next
  case (Suc k)
  have le: "a div 10 \<le> b div 10" using Suc.prems(1) by (simp add: div_le_mono)
  have bd: "b div 10 < 10 ^ k" using Suc.prems(2) by (simp add: less_mult_imp_div_less mult.commute)
  show ?case
  proof (cases "a div 10 < b div 10")
    case True
    from Suc.IH[OF True bd] have "(zero_padded_decimal k (a div 10), zero_padded_decimal k (b div 10)) \<in> lexord {(u, v). u < v}"
      by (simp add: list_less_def)
    then have "(zero_padded_decimal k (a div 10) @ [digit_char (a mod 10)], zero_padded_decimal k (b div 10) @ [digit_char (b mod 10)])
        \<in> lexord {(u, v). u < v}"
      by (rule lexord_sufI) simp
    then show ?thesis by (simp add: list_less_def)
  next
    case False
    then have eq: "a div 10 = b div 10" using le by simp
    have "a mod 10 < b mod 10"
      using Suc.prems(1) eq by (metis div_mult_mod_eq nat_add_left_cancel_less)
    then have "digit_char (a mod 10) < digit_char (b mod 10)"
      by (rule digit_char_less) simp
    then show ?thesis
      by (simp add: eq list_less_def lexord_append_leftI)
  qed
qed

lemma fmt_020d_nonneg: "0 \<le> i \<Longrightarrow> i < 10 ^ 20 \<Longrightarrow> fmt_020d i = zero_padded_decimal 20 (nat i)"
proof -
  assume a: "0 \<le> i" "i < 10 ^ 20"
  have "nat i < 10 ^ 20" using a by (simp add: nat_less_iff)
  from str_nat_zero_padded[OF this] a show ?thesis
    by (simp add: fmt_020d_def Let_def)
qed

lemma fmt_020d_mono_nonneg:
  assumes "0 \<le> i" "i < j" "j < 10 ^ 20"
  shows "fmt_020d i < fmt_020d j"
proof -
  have "nat i < nat j" "nat j < 10 ^ 20" using assms by (simp_all add: nat_less_iff)
  then have "zero_padded_decimal 20 (nat i) < zero_padded_decimal 20 (nat j)" by (rule zero_padded_decimal_mono)
  then show ?thesis using assms by (simp add: fmt_020d_nonneg)
qed


lemma digit_char_no_sign: "digit_char d \<noteq> CHR ''-''"
  using digit_cases[of "d mod 10"] by (auto simp: digit_char_def)

lemma zero_padded_decimal_no_sign: "CHR ''-'' \<notin> set (zero_padded_decimal k n)"
  by (induction k arbitrary: n) (simp_all add: digit_char_no_sign[THEN not_sym])

lemma sign_not_zero_padded:
  assumes "0 < k"
  shows "CHR ''-'' # xs \<noteq> zero_padded_decimal k n @ ys"
proof
  assume eq: "CHR ''-'' # xs = zero_padded_decimal k n @ ys"
  have ne: "zero_padded_decimal k n \<noteq> []"
    using assms length_zero_padded_decimal[of k n] by (metis length_0_conv less_numeral_extra(3))
  then have "hd (zero_padded_decimal k n @ ys) \<in> set (zero_padded_decimal k n)"
    by (simp del: zero_padded_decimal.simps)
  then have "CHR ''-'' \<in> set (zero_padded_decimal k n)"
    using eq by (metis list.sel(1))
  then show False using zero_padded_decimal_no_sign by blast
qed

subsection \<open>Auxiliary facts about the store\<close>

lemma set_progress_fields [simp]:
  "quotes (set_progress_hasVoted s u) = quotes s"
  "votes (set_progress_hasVoted s u) = votes s"
  "memcache (set_progress_hasVoted s u) = memcache s"
  "last_id (set_progress_hasVoted s u) = last_id s"
  "max_length (set_progress_hasVoted s u) = max_length s"
  by (simp_all add: set_progress_hasVoted_def Let_def)

lemma Vote_upd [simp]: "(x::Vote)\<lparr>vote := v\<rparr> = \<lparr>vote = v\<rparr>"
  by (cases x) simp

lemma txn_missing:
  assumes "map_of (quotes s) quote_id = None"
  shows "set_vote_txn s quote_id u v = Inl (if quote_id = 0 then BadKeyError else BadRequestError)"
  using assms by (simp add: set_vote_txn_def get_by_id_def)

lemma txn_noop:
  assumes "map_of (quotes s) quote_id = Some q" "quote_id \<noteq> 0"
    "stored_vote s quote_id (email u) = v"
  shows "set_vote_txn s quote_id u v = Inr s"
  using assms
  by (simp add: set_vote_txn_def get_by_id_def stored_vote_def Let_def split: option.splits)

lemma txn_change:
  assumes "map_of (quotes s) quote_id = Some q" "quote_id \<noteq> 0"
    "stored_vote s quote_id (email u) \<noteq> v"
    "assignable s q (stored_vote s quote_id (email u)) v"
  shows "set_vote_txn s quote_id u v =
     Inr (s\<lparr>votes := AList.update (quote_id, email u) \<lparr>vote = v\<rparr> (votes s),
            quotes := AList.update quote_id
               (q\<lparr>votesum := votesum q - stored_vote s quote_id (email u) + v,
                  rank := Some (fmt_020d (created q * DAY_SCALE + (votesum q - stored_vote s quote_id (email u) + v)) @ ''|'' @ creation_order q)\<rparr>) (quotes s),
            memcache := AList.update (''vote|'' @ email u @ ''|'' @ str_nat quote_id) v (memcache s)\<rparr>)"
  using assms
  by (simp add: set_vote_txn_def get_by_id_def stored_vote_def assignable_def Let_def
      split: option.splits)

lemma txn_reject:
  assumes "map_of (quotes s) quote_id = Some q" "quote_id \<noteq> 0"
    "stored_vote s quote_id (email u) \<noteq> v"
    "\<not> assignable s q (stored_vote s quote_id (email u)) v"
  shows "set_vote_txn s quote_id u v = Inl BadValueError"
  using assms
  by (auto simp add: set_vote_txn_def get_by_id_def stored_vote_def assignable_def Let_def
      split: option.splits)

lemma set_progress_hasVoted_twice:
  "set_progress_hasVoted (set_progress_hasVoted s u) u = set_progress_hasVoted s u"
  by (simp add: set_progress_hasVoted_def Let_def get_or_create_voter_def AList.update_conv)

lemma stored_vote_set_progress [simp]:
  "stored_vote (set_progress_hasVoted s u) quote_id em = stored_vote s quote_id em"
  by (simp add: stored_vote_def)

lemma filter_sum_update:
  assumes "P k"
  shows "sum_list (map (\<lambda>kv. vote (snd kv)) (filter (\<lambda>kv. P (fst kv)) (AList.update k w al)))
       = sum_list (map (\<lambda>kv. vote (snd kv)) (filter (\<lambda>kv. P (fst kv)) al))
         - (case map_of al k of None \<Rightarrow> 0 | Some x \<Rightarrow> vote x) + vote w"
  using assms by (induction al) auto

lemma vote_total_update:
  "vote_total (s\<lparr>votes := AList.update (quote_id, em) w (votes s)\<rparr>) quote_id
     = vote_total s quote_id - stored_vote s quote_id em + vote w"
  unfolding vote_total_def stored_vote_def
  using filter_sum_update[of "\<lambda>k. fst k = quote_id" "(quote_id, em)" w "votes s"]
  by simp

lemma filter_sum_as_sum:
  assumes "distinct (map fst al)" "finite E"
    and "snd ` {k \<in> fst ` set al. fst k = quote_id} \<subseteq> E"
  shows "sum_list (map (\<lambda>kv. vote (snd kv)) (filter (\<lambda>kv. fst (fst kv) = quote_id) al))
       = (\<Sum>em\<in>E. case map_of al (quote_id, em) of None \<Rightarrow> 0 | Some x \<Rightarrow> vote x)"
  using assms
proof (induction al)
  case Nil
  then show ?case by simp
next
  case (Cons a al)
  obtain p e0 w where a: "a = ((p, e0), w)" by (metis surj_pair)
  have d: "distinct (map fst al)" and notin: "(p, e0) \<notin> fst ` set al"
    using Cons.prems(1) a by auto
  have sub: "snd ` {k \<in> fst ` set al. fst k = quote_id} \<subseteq> E"
    using Cons.prems(3) by auto
  note IH = Cons.IH[OF d Cons.prems(2) sub]
  show ?case
  proof (cases "p = quote_id")
    case False
    then show ?thesis using IH a by simp
  next
    case True
    have e0: "e0 \<in> E" using Cons.prems(3) a True by force
    have none: "map_of al (quote_id, e0) = None"
      using notin True by (simp add: map_of_eq_None_iff)
    define f where "f = (\<lambda>em. case map_of al (quote_id, em) of None \<Rightarrow> 0 | Some x \<Rightarrow> vote x)"
    define g where "g = (\<lambda>em. case map_of (a # al) (quote_id, em) of None \<Rightarrow> 0 | Some x \<Rightarrow> vote x)"
    have g: "g em = (if em = e0 then vote w else f em)" for em
      using a True by (simp add: f_def g_def)
    have f0: "f e0 = 0" using none by (simp add: f_def)
    have "sum g E = g e0 + sum g (E - {e0})"
      using Cons.prems(2) e0 by (simp add: sum.remove)
    also have "sum g (E - {e0}) = sum f (E - {e0})"
      by (rule sum.cong) (simp_all add: g)
    also have "sum f (E - {e0}) = sum f E"
      using Cons.prems(2) e0 f0 by (simp add: sum.remove)
    finally have "sum g E = vote w + sum f E" by (simp add: g)
    then have "sum g E = vote w + sum_list (map (\<lambda>kv. vote (snd kv)) (filter (\<lambda>kv. fst (fst kv) = quote_id) al))"
      using IH by (simp add: f_def)
    then show ?thesis using a True by (simp add: g_def)
  qed
qed

lemma vote_total_as_sum:
  assumes "distinct (map fst (votes s))" "finite E" "voters_on s quote_id \<subseteq> E"
  shows "vote_total s quote_id = (\<Sum>em\<in>E. stored_vote s quote_id em)"
  using filter_sum_as_sum[OF assms(1,2), of quote_id] assms(3)
  unfolding vote_total_def stored_vote_def voters_on_def by simp

lemma stored_vote_update:
  "stored_vote (s\<lparr>votes := AList.update (quote_id, em) w (votes s)\<rparr>) quote_id em'
     = (if em' = em then vote w else stored_vote s quote_id em')"
  by (simp add: stored_vote_def AList.update_conv)

lemma voters_on_update:
  "voters_on (s\<lparr>votes := AList.update (quote_id, em) w (votes s)\<rparr>) quote_id
     = insert em (voters_on s quote_id)"
  by (auto simp: voters_on_def AList.dom_update image_iff)

text \<open>One call on an existing quote: it returns normally exactly when the value is the
  stored one or the assignments pass validation, and otherwise raises
  \<^verbatim>\<open>BadValueError\<close> and leaves the store as it was.\<close>

lemma set_vote_step:
  assumes q: "map_of (quotes s) quote_id = Some q" and id: "quote_id \<noteq> 0"
  shows "\<exists>r s1 q1. set_vote s quote_id (Some u) v = (r, s1)
           \<and> map_of (quotes s1) quote_id = Some q1
           \<and> (r = Inr () \<longleftrightarrow> stored_vote s quote_id (email u) = v
                                \<or> assignable s q (stored_vote s quote_id (email u)) v)
           \<and> (r \<noteq> Inr () \<longrightarrow> r = Inl BadValueError \<and> s1 = s)
           \<and> (r = Inr () \<longrightarrow> votesum q1 = votesum q - stored_vote s quote_id (email u) + v)
           \<and> vote_total s1 quote_id - votesum q1 = vote_total s quote_id - votesum q
           \<and> (\<forall>em. stored_vote s1 quote_id em =
                  (if r = Inr () \<and> em = email u then v else stored_vote s quote_id em))
           \<and> voters_on s1 quote_id \<subseteq> insert (email u) (voters_on s quote_id)
           \<and> (distinct (map fst (votes s)) \<longrightarrow> distinct (map fst (votes s1)))"
proof (cases "stored_vote s quote_id (email u) = v")
  case True
  have "set_vote s quote_id (Some u) v = (Inr (), set_progress_hasVoted s u)"
    by (simp add: set_vote_def txn_noop[OF q id True])
  moreover have "vote_total (set_progress_hasVoted s u) quote_id = vote_total s quote_id"
    "voters_on (set_progress_hasVoted s u) quote_id = voters_on s quote_id"
    "\<And>em. stored_vote (set_progress_hasVoted s u) quote_id em = stored_vote s quote_id em"
    by (simp_all add: vote_total_def voters_on_def stored_vote_def)
  ultimately show ?thesis using q True by auto
next
  case False
  show ?thesis
  proof (cases "assignable s q (stored_vote s quote_id (email u)) v")
    case no: False
    have "set_vote s quote_id (Some u) v = (Inl BadValueError, s)"
      by (simp add: set_vote_def txn_reject[OF q id False no])
    then show ?thesis using q False no by auto
  next
    case ok: True
    define s1 where "s1 = s\<lparr>votes := AList.update (quote_id, email u) \<lparr>vote = v\<rparr> (votes s)\<rparr>"
    define q1 where "q1 = q\<lparr>votesum := votesum q - stored_vote s quote_id (email u) + v,
                    rank := Some (fmt_020d (created q * DAY_SCALE + (votesum q - stored_vote s quote_id (email u) + v)) @ ''|'' @ creation_order q)\<rparr>"
    define s2 where "s2 = s1\<lparr>quotes := AList.update quote_id q1 (quotes s),
              memcache := AList.update (''vote|'' @ email u @ ''|'' @ str_nat quote_id) v (memcache s)\<rparr>"
    have txn: "set_vote_txn s quote_id u v = Inr s2"
      unfolding txn_change[OF q id False ok] s2_def s1_def q1_def by simp
    have sv: "set_vote s quote_id (Some u) v = (Inr (), set_progress_hasVoted s2 u)"
      by (simp add: set_vote_def txn)
    have v2: "votes s2 = votes s1" by (simp add: s2_def)
    have "vote_total (set_progress_hasVoted s2 u) quote_id = vote_total s1 quote_id"
      "voters_on (set_progress_hasVoted s2 u) quote_id = voters_on s1 quote_id"
      "\<And>em. stored_vote (set_progress_hasVoted s2 u) quote_id em = stored_vote s1 quote_id em"
      by (simp_all add: vote_total_def voters_on_def stored_vote_def v2)
    moreover have "map_of (quotes (set_progress_hasVoted s2 u)) quote_id = Some q1"
      by (simp add: s2_def AList.update_conv)
    moreover have "votesum q1 = votesum q - stored_vote s quote_id (email u) + v"
      by (simp add: q1_def)
    moreover have "distinct (map fst (votes s)) \<longrightarrow> distinct (map fst (votes (set_progress_hasVoted s2 u)))"
      by (simp add: v2 s1_def AList.distinct_update)
    ultimately show ?thesis
      using sv ok vote_total_update[where s=s and quote_id=quote_id and em="email u" and w="\<lparr>vote = v\<rparr>"]
        stored_vote_update[where s=s and quote_id=quote_id and em="email u" and w="\<lparr>vote = v\<rparr>"]
        voters_on_update[where s=s and quote_id=quote_id and em="email u" and w="\<lparr>vote = v\<rparr>"]
      unfolding s1_def[symmetric] by auto
  qed
qed

lemma latest_vote_Cons:
  "latest_vote ((u, v) # cs) em =
     (case latest_vote cs em of Some w \<Rightarrow> Some w | None \<Rightarrow> if em = email u then Some v else None)"
  by (simp add: latest_vote_def map_add_def split: option.splits)

lemma latest_vote_None_iff: "latest_vote cs em = None \<longleftrightarrow> em \<notin> email ` fst ` set cs"
  by (force simp: latest_vote_def map_of_eq_None_iff image_iff)

lemma cast_votes_invariant:
  assumes "map_of (quotes s) quote_id = Some q" "quote_id \<noteq> 0" "distinct (map fst (votes s))"
    "votesum q = vote_total s quote_id"
  shows "\<exists>returned s' q'. cast_votes s quote_id cs = (returned, s')
           \<and> map_of (quotes s') quote_id = Some q'
           \<and> votesum q' = vote_total s' quote_id
           \<and> distinct (map fst (votes s'))
           \<and> (\<forall>em. stored_vote s' quote_id em =
                 (case latest_vote returned em of Some w \<Rightarrow> w | None \<Rightarrow> stored_vote s quote_id em))
           \<and> voters_on s' quote_id \<subseteq> voters_on s quote_id \<union> email ` fst ` set cs"
  using assms
proof (induction cs arbitrary: s q)
  case Nil
  then show ?case by (simp add: latest_vote_def)
next
  case (Cons c cs)
  obtain u v where c: "c = (u, v)" by (cases c)
  from set_vote_step[OF Cons.prems(1,2), of u v] obtain r s1 q1 where
    st: "set_vote s quote_id (Some u) v = (r, s1)"
    and q1: "map_of (quotes s1) quote_id = Some q1"
    and bad: "r \<noteq> Inr () \<longrightarrow> r = Inl BadValueError \<and> s1 = s"
    and vt: "vote_total s1 quote_id - votesum q1 = vote_total s quote_id - votesum q"
    and sv: "\<forall>em. stored_vote s1 quote_id em =
                  (if r = Inr () \<and> em = email u then v else stored_vote s quote_id em)"
    and vo: "voters_on s1 quote_id \<subseteq> insert (email u) (voters_on s quote_id)"
    and di: "distinct (map fst (votes s)) \<longrightarrow> distinct (map fst (votes s1))"
    by blast
  have inv1: "votesum q1 = vote_total s1 quote_id" using vt Cons.prems(4) by simp
  have d1: "distinct (map fst (votes s1))" using di Cons.prems(3) by simp
  from Cons.IH[OF q1 Cons.prems(2) d1 inv1] obtain returned s' q' where
    r: "cast_votes s1 quote_id cs = (returned, s')"
    and q': "map_of (quotes s') quote_id = Some q'"
    and inv': "votesum q' = vote_total s' quote_id"
    and d': "distinct (map fst (votes s'))"
    and sv': "\<forall>em. stored_vote s' quote_id em =
                 (case latest_vote returned em of Some w \<Rightarrow> w | None \<Rightarrow> stored_vote s1 quote_id em)"
    and vo': "voters_on s' quote_id \<subseteq> voters_on s1 quote_id \<union> email ` fst ` set cs"
    by blast
  have vo'': "voters_on s' quote_id \<subseteq> voters_on s quote_id \<union> email ` fst ` set (c # cs)"
    using vo vo' c by auto
  show ?case
  proof (cases "r = Inr ()")
    case True
    have "cast_votes s quote_id (c # cs) = ((u, v) # returned, s')"
      using st r c True by simp
    moreover have "\<forall>em. stored_vote s' quote_id em =
                   (case latest_vote ((u, v) # returned) em of Some w \<Rightarrow> w | None \<Rightarrow> stored_vote s quote_id em)"
      using sv' sv True by (auto simp: latest_vote_Cons split: option.splits)
    ultimately show ?thesis using q' inv' d' vo'' by blast
  next
    case False
    then have e: "r = Inl BadValueError" "s1 = s" using bad by simp_all
    have "cast_votes s quote_id (c # cs) = (returned, s')"
      using st r c e by simp
    moreover have "\<forall>em. stored_vote s' quote_id em =
                   (case latest_vote returned em of Some w \<Rightarrow> w | None \<Rightarrow> stored_vote s quote_id em)"
      using sv' unfolding e(2) by simp
    ultimately show ?thesis using q' inv' d' vo'' by blast
  qed
qed

subsection \<open>Auxiliary facts about the recency listing\<close>

text \<open>When no two entities have the same value of the property, the order among equal
  values plays no part: the listing is the reversed sort.\<close>

lemma order_by_desc_distinct:
  assumes "distinct (map f xs)"
  shows "order_by_desc f xs = rev (sort_key f xs)"
proof -
  have d: "distinct xs" and inj: "inj_on f (set xs)"
    using assms by (simp_all add: distinct_map)
  have "sort_key f (rev (sort_key fst xs)) = sort_key f xs"
  proof (rule map_sorted_distinct_set_unique[where f = f])
    show "inj_on f (set (sort_key f (rev (sort_key fst xs))) \<union> set (sort_key f xs))"
      using inj by simp
    show "sorted (map f (sort_key f (rev (sort_key fst xs))))" by (rule sorted_sort_key)
    show "sorted (map f (sort_key f xs))" by (rule sorted_sort_key)
    show "distinct (map f (sort_key f (rev (sort_key fst xs))))"
      using d inj by (simp add: distinct_map)
    show "distinct (map f (sort_key f xs))"
      using d inj by (simp add: distinct_map)
    show "set (sort_key f (rev (sort_key fst xs))) = set (sort_key f xs)" by simp
  qed
  then show ?thesis by (simp add: order_by_desc_def)
qed

lemma newest_listing_desc:
  assumes "distinct (map order_key xs)"
  shows "sorted_wrt (\<lambda>a b. order_key b < order_key a) (rev (sort_key order_key xs))"
proof -
  have d: "distinct (map order_key (sort_key order_key xs))"
    using assms by (simp add: distinct_map)
  have "sorted (map order_key (sort_key order_key xs))" by (rule sorted_sort_key)
  with d have "sorted_wrt (<) (map order_key (sort_key order_key xs))"
    by (simp add: strict_sorted_iff)
  then show ?thesis by (simp add: sorted_wrt_rev sorted_wrt_map)
qed

lemma desc_filter_all:
  assumes "\<forall>y \<in> set xs. order_key y < c"
  shows "filter (\<lambda>q. order_key q \<le> c) xs = xs"
  using assms by (induction xs) auto

lemma desc_filter_drop:
  assumes "sorted_wrt (\<lambda>a b. order_key b < order_key a) L" "k < length L"
  shows "filter (\<lambda>q. order_key q \<le> order_key (L ! k)) L = drop k L"
  using assms
proof (induction L arbitrary: k)
  case Nil
  then show ?case by simp
next
  case (Cons x xs)
  show ?case
  proof (cases k)
    case 0
    have "\<forall>y \<in> set xs. order_key y < order_key x" using Cons.prems(1) by simp
    then show ?thesis using 0 by (simp add: desc_filter_all)
  next
    case (Suc j)
    have j: "j < length xs" using Cons.prems(2) Suc by simp
    then have "order_key (xs ! j) < order_key x" using Cons.prems(1) by simp
    moreover have "filter (\<lambda>q. order_key q \<le> order_key (xs ! j)) xs = drop j xs"
      using Cons.IH[OF _ j] Cons.prems(1) by simp
    ultimately show ?thesis using Suc by simp
  qed
qed

lemma newest_query_offset:
  assumes "distinct (map order_key xs)"
  shows "order_by_desc order_key (filter (\<lambda>q. order_key q \<le> c) xs)
       = filter (\<lambda>q. order_key q \<le> c) (rev (sort_key order_key xs))"
proof -
  have "distinct (map order_key (filter (\<lambda>q. order_key q \<le> c) xs))"
    using assms by (rule distinct_map_filter)
  then have "order_by_desc order_key (filter (\<lambda>q. order_key q \<le> c) xs)
           = rev (sort_key order_key (filter (\<lambda>q. order_key q \<le> c) xs))"
    by (rule order_by_desc_distinct)
  also have "\<dots> = filter (\<lambda>q. order_key q \<le> c) (rev (sort_key order_key xs))"
    by (simp only: rev_filter[symmetric] filter_sort)
  finally show ?thesis .
qed

lemma fetch_page:
  "(let fetched = take (PAGE_SIZE + 1) R
    in if length fetched > PAGE_SIZE
       then (take PAGE_SIZE fetched, Some (order_key (last fetched)))
       else (fetched, None))
   = (if length R > PAGE_SIZE then (take PAGE_SIZE R, Some (order_key (R ! PAGE_SIZE))) else (R, None))"
proof (cases "length R > PAGE_SIZE")
  case True
  then have l: "length (take (PAGE_SIZE + 1) R) = PAGE_SIZE + 1" by simp
  have ne: "take (PAGE_SIZE + 1) R \<noteq> []" using True by auto
  have "last (take (PAGE_SIZE + 1) R) = take (PAGE_SIZE + 1) R ! PAGE_SIZE"
    using last_conv_nth[OF ne] l by simp
  also have "\<dots> = R ! PAGE_SIZE" by simp
  finally show ?thesis using True l by (simp add: Let_def min_def)
next
  case False
  then show ?thesis by (simp add: Let_def)
qed

lemma get_quotes_newest_None:
  assumes "distinct (map order_key (quotes s))"
  shows "get_quotes_newest s None =
     (let R = rev (sort_key order_key (quotes s))
      in if length R > PAGE_SIZE then (take PAGE_SIZE R, Some (order_key (R ! PAGE_SIZE))) else (R, None))"
  unfolding get_quotes_newest_def using fetch_page[of "rev (sort_key order_key (quotes s))"]
  by (simp add: Let_def order_by_desc_distinct[OF assms])

lemma get_quotes_newest_Some:
  assumes "distinct (map order_key (quotes s))"
  shows "get_quotes_newest s (Some c) =
     (let R = filter (\<lambda>q. order_key q \<le> c) (rev (sort_key order_key (quotes s)))
      in if length R > PAGE_SIZE then (take PAGE_SIZE R, Some (order_key (R ! PAGE_SIZE))) else (R, None))"
  unfolding get_quotes_newest_def
  using fetch_page[of "filter (\<lambda>q. order_key q \<le> c) (rev (sort_key order_key (quotes s)))"]
  by (simp add: Let_def newest_query_offset[OF assms])

lemma PAGE_SIZE_pos: "0 < PAGE_SIZE"
  by (simp add: PAGE_SIZE_def)

lemma page_through_from:
  assumes L: "L = rev (sort_key order_key (quotes s))"
    and desc: "sorted_wrt (\<lambda>a b. order_key b < order_key a) L"
    and dist: "distinct (map order_key (quotes s))"
  shows "k < length L \<Longrightarrow> length L - k \<le> Suc n * PAGE_SIZE \<Longrightarrow>
     \<exists>pages. page_through (Suc n) s (Some (order_key (L ! k))) = Some pages
        \<and> pages \<noteq> [] \<and> concat pages = drop k L
        \<and> (\<forall>p \<in> set (butlast pages). length p = PAGE_SIZE)
        \<and> length (last pages) \<le> PAGE_SIZE"
proof (induction n arbitrary: k)
  case 0
  have R: "filter (\<lambda>q. order_key q \<le> order_key (L ! k)) L = drop k L"
    by (rule desc_filter_drop[OF desc "0.prems"(1)])
  have len: "length (drop k L) \<le> PAGE_SIZE" using "0.prems"(2) by simp
  have "get_quotes_newest s (Some (order_key (L ! k))) = (drop k L, None)"
    using len by (simp add: get_quotes_newest_Some[OF dist] L[symmetric] R Let_def)
  then show ?case using len by simp
next
  case (Suc n)
  have R: "filter (\<lambda>q. order_key q \<le> order_key (L ! k)) L = drop k L"
    by (rule desc_filter_drop[OF desc Suc.prems(1)])
  show ?case
  proof (cases "length (drop k L) \<le> PAGE_SIZE")
    case True
    have "get_quotes_newest s (Some (order_key (L ! k))) = (drop k L, None)"
      using True by (simp add: get_quotes_newest_Some[OF dist] L[symmetric] R Let_def)
    then show ?thesis using True by simp
  next
    case False
    then have big: "PAGE_SIZE < length (drop k L)" by simp
    then have k': "k + PAGE_SIZE < length L" by simp
    have nth: "drop k L ! PAGE_SIZE = L ! (k + PAGE_SIZE)"
      using k' by simp
    have g: "get_quotes_newest s (Some (order_key (L ! k)))
           = (take PAGE_SIZE (drop k L), Some (order_key (L ! (k + PAGE_SIZE))))"
      using big by (simp add: get_quotes_newest_Some[OF dist] L[symmetric] R Let_def nth del: length_drop)
    have fuel: "length L - (k + PAGE_SIZE) \<le> Suc n * PAGE_SIZE"
      using Suc.prems(2) by simp
    from Suc.IH[OF k' fuel] obtain pages where
      p: "page_through (Suc n) s (Some (order_key (L ! (k + PAGE_SIZE)))) = Some pages"
      and ne: "pages \<noteq> []"
      and cc: "concat pages = drop (k + PAGE_SIZE) L"
      and full: "\<forall>p \<in> set (butlast pages). length p = PAGE_SIZE"
      and lst: "length (last pages) \<le> PAGE_SIZE"
      by blast
    let ?pg = "take PAGE_SIZE (drop k L)"
    have 1: "page_through (Suc (Suc n)) s (Some (order_key (L ! k))) = Some (?pg # pages)"
      using g p by simp
    have "take PAGE_SIZE (drop k L) @ drop PAGE_SIZE (drop k L) = drop k L"
      by (rule append_take_drop_id)
    moreover have "drop PAGE_SIZE (drop k L) = drop (k + PAGE_SIZE) L"
      by (simp add: add.commute)
    ultimately have 2: "concat (?pg # pages) = drop k L"
      using cc by simp
    have 3: "length ?pg = PAGE_SIZE" using big by simp
    have 4: "\<forall>p \<in> set (butlast (?pg # pages)). length p = PAGE_SIZE"
      using full 3 ne by simp
    have 5: "length (last (?pg # pages)) \<le> PAGE_SIZE" using lst ne by simp
    show ?thesis using 1 2 4 5 by blast
  qed
qed

subsection \<open>Voting\<close>

text \<open>The same call made twice: the second call returns what the first returned and
  leaves the store as the first left it.\<close>

lemma set_vote_twice:
  "\<exists>r s1. set_vote s quote_id usr v = (r, s1) \<and> set_vote s1 quote_id usr v = (r, s1)"
proof (cases usr)
  case None
  then show ?thesis by (simp add: set_vote_def)
next
  case (Some u)
  show ?thesis
  proof (cases "map_of (quotes s) quote_id")
    case None
    then show ?thesis using Some by (simp add: set_vote_def txn_missing)
  next
    case q: (Some q)
    show ?thesis
    proof (cases "quote_id = 0")
      case True
      then show ?thesis using Some by (simp add: set_vote_def set_vote_txn_def get_by_id_def)
    next
      case id: False
      from set_vote_step[OF q id, of u v] obtain r s1 q1 where
        st: "set_vote s quote_id (Some u) v = (r, s1)"
        and q1: "map_of (quotes s1) quote_id = Some q1"
        and bad: "r \<noteq> Inr () \<longrightarrow> r = Inl BadValueError \<and> s1 = s"
        and sv: "\<forall>em. stored_vote s1 quote_id em =
                  (if r = Inr () \<and> em = email u then v else stored_vote s quote_id em)"
        by blast
      show ?thesis
      proof (cases "r = Inr ()")
        case False
        then show ?thesis using st bad Some by auto
      next
        case True
        have v1: "stored_vote s1 quote_id (email u) = v" using sv True by simp
        have "\<exists>t. s1 = set_progress_hasVoted t u"
          using st True by (auto simp: set_vote_def split: sum.splits)
        then have "set_progress_hasVoted s1 u = s1"
          by (auto simp: set_progress_hasVoted_twice)
        then have "set_vote s1 quote_id (Some u) v = (Inr (), s1)"
          by (simp add: set_vote_def txn_noop[OF q1 id v1])
        then show ?thesis using st True Some by simp
      qed
    qed
  qed
qed


text \<open>
  Claim C1, as stated, at a concrete input.  Fred votes \<open>2 ^ 63 - 1\<close> on a new quote
  and Barney then votes 1.  Barney's call differs from the prior value 0, yet the votesum
  it would write does not fit an integer property: the call raises
  \<^verbatim>\<open>BadValueError\<close> and the votesum stays \<open>2 ^ 63 - 1\<close>, which is not the sum of the
  two users' latest values.
\<close>

theorem votesum_misses_rejected_vote_counterexample:
  "map_of (quotes ex_store) 5 = Some ex_quote
   \<and> votes ex_store = []
   \<and> set_vote ex_store 5 (Some fred) 9223372036854775807 = (Inr (), big_store)
   \<and> set_vote big_store 5 (Some barney) 1 = (Inl BadValueError, big_store)
   \<and> cast_votes ex_store 5 big_casts = ([(fred, 9223372036854775807)], big_store)
   \<and> latest_vote big_casts (email fred) = Some 9223372036854775807
   \<and> latest_vote big_casts (email barney) = Some 1
   \<and> map_option votesum (map_of (quotes (snd (cast_votes ex_store 5 big_casts))) 5)
       = Some 9223372036854775807
   \<and> map_option votesum (map_of (quotes (snd (cast_votes ex_store 5 big_casts))) 5)
       \<noteq> Some (9223372036854775807 + 1)"
proof -
  have f: "fmt_020d 9223372036854775811 = ''09223372036854775811''"
    by (simp add: fmt_020d_def Let_def str_nat.simps digit_char_def)
  have 1: "set_vote ex_store 5 (Some fred) 9223372036854775807 = (Inr (), big_store)"
    by (simp add: set_vote_def set_vote_txn_def get_by_id_def ex_store_def ex_quote_def fred_def
        big_store_def fits_64_def valid_string_def DAY_SCALE_def f Let_def
        set_progress_hasVoted_def get_or_create_voter_def str_nat.simps digit_char_def)
  have 2: "set_vote big_store 5 (Some barney) 1 = (Inl BadValueError, big_store)"
    by (simp add: set_vote_def set_vote_txn_def get_by_id_def big_store_def barney_def
        fits_64_def Let_def)
  have 3: "cast_votes ex_store 5 big_casts = ([(fred, 9223372036854775807)], big_store)"
    by (simp add: big_casts_def 1 2)
  have 4: "latest_vote big_casts (email fred) = Some 9223372036854775807"
    "latest_vote big_casts (email barney) = Some 1"
    by (simp_all add: latest_vote_def big_casts_def fred_def barney_def)
  have 5: "map_of (quotes ex_store) 5 = Some ex_quote" "votes ex_store = []"
    by (simp_all add: ex_store_def)
  have 6: "map_option votesum (map_of (quotes (snd (cast_votes ex_store 5 big_casts))) 5)
       = Some 9223372036854775807"
    by (simp add: 3 big_store_def)
  have 7: "map_option votesum (map_of (quotes (snd (cast_votes ex_store 5 big_casts))) 5)
       \<noteq> Some (9223372036854775807 + 1)"
    by (simp add: 3 big_store_def)
  show ?thesis
    by (rule conjI[OF 5(1) conjI[OF 5(2) conjI[OF 1 conjI[OF 2 conjI[OF 3
          conjI[OF 4(1) conjI[OF 4(2) conjI[OF 6 7]]]]]]]])
qed

text \<open>
  Claim C1, amended.  Take a store in which the quote exists, Vote keys are unique and
  the quote's votesum is the sum of the votes stored under it (a new quote: votesum 0, no
  votes).  After every finite sequence of \<^verbatim>\<open>set_vote\<close> calls on the quote by
  signed-in users the votesum is again the sum of the stored votes, and it is the sum,
  over the users who have a vote stored or who called, of each user's latest value that
  was accepted: the value of the user's last call that returned normally, the value
  stored before the sequence if there is no such call.  A single call returns normally
  exactly when its value is the caller's prior value (0 if the caller had no vote) or the
  new votesum, the value and the new rank pass the validation of their properties; it
  then changes the votesum by exactly the new value minus the prior one.  Otherwise it
  raises \<^verbatim>\<open>BadValueError\<close> and changes nothing.
\<close>

theorem votesum_is_sum_of_latest_accepted_votes:
  assumes "map_of (quotes s) quote_id = Some q" "quote_id \<noteq> 0" "distinct (map fst (votes s))"
    "votesum q = vote_total s quote_id"
  shows "(\<exists>returned s' q'. cast_votes s quote_id cs = (returned, s')
            \<and> map_of (quotes s') quote_id = Some q'
            \<and> votesum q' = vote_total s' quote_id
            \<and> votesum q' = (\<Sum>em \<in> voters_on s quote_id \<union> email ` fst ` set cs.
                  case latest_vote returned em of Some w \<Rightarrow> w | None \<Rightarrow> stored_vote s quote_id em))
       \<and> (\<exists>r s1 q1. set_vote s quote_id (Some u) v = (r, s1)
            \<and> map_of (quotes s1) quote_id = Some q1
            \<and> (r = Inr () \<longleftrightarrow> stored_vote s quote_id (email u) = v
                                 \<or> assignable s q (stored_vote s quote_id (email u)) v)
            \<and> (r = Inr () \<longrightarrow> votesum q1 = votesum q + (v - stored_vote s quote_id (email u)))
            \<and> (r \<noteq> Inr () \<longrightarrow> r = Inl BadValueError \<and> s1 = s))"
proof
  from cast_votes_invariant[OF assms, of cs] obtain returned s' q' where
    r: "cast_votes s quote_id cs = (returned, s')"
    and q': "map_of (quotes s') quote_id = Some q'"
    and inv': "votesum q' = vote_total s' quote_id"
    and d': "distinct (map fst (votes s'))"
    and sv': "\<forall>em. stored_vote s' quote_id em =
                 (case latest_vote returned em of Some w \<Rightarrow> w | None \<Rightarrow> stored_vote s quote_id em)"
    and vo': "voters_on s' quote_id \<subseteq> voters_on s quote_id \<union> email ` fst ` set cs"
    by blast
  have fin: "finite (voters_on s quote_id \<union> email ` fst ` set cs)"
    by (simp add: voters_on_def)
  have "vote_total s' quote_id = (\<Sum>em \<in> voters_on s quote_id \<union> email ` fst ` set cs. stored_vote s' quote_id em)"
    by (rule vote_total_as_sum[OF d' fin vo'])
  also have "\<dots> = (\<Sum>em \<in> voters_on s quote_id \<union> email ` fst ` set cs.
                  case latest_vote returned em of Some w \<Rightarrow> w | None \<Rightarrow> stored_vote s quote_id em)"
    using sv' by simp
  finally show "\<exists>returned s' q'. cast_votes s quote_id cs = (returned, s')
            \<and> map_of (quotes s') quote_id = Some q'
            \<and> votesum q' = vote_total s' quote_id
            \<and> votesum q' = (\<Sum>em \<in> voters_on s quote_id \<union> email ` fst ` set cs.
                  case latest_vote returned em of Some w \<Rightarrow> w | None \<Rightarrow> stored_vote s quote_id em)"
    using r q' inv' by auto
next
  from set_vote_step[OF assms(1,2), of u v] obtain r s1 q1 where
    "set_vote s quote_id (Some u) v = (r, s1)"
    "map_of (quotes s1) quote_id = Some q1"
    "r = Inr () \<longleftrightarrow> stored_vote s quote_id (email u) = v
                                 \<or> assignable s q (stored_vote s quote_id (email u)) v"
    "r \<noteq> Inr () \<longrightarrow> r = Inl BadValueError \<and> s1 = s"
    "r = Inr () \<longrightarrow> votesum q1 = votesum q - stored_vote s quote_id (email u) + v"
    by blast
  then show "\<exists>r s1 q1. set_vote s quote_id (Some u) v = (r, s1)
            \<and> map_of (quotes s1) quote_id = Some q1
            \<and> (r = Inr () \<longleftrightarrow> stored_vote s quote_id (email u) = v
                                 \<or> assignable s q (stored_vote s quote_id (email u)) v)
            \<and> (r = Inr () \<longrightarrow> votesum q1 = votesum q + (v - stored_vote s quote_id (email u)))
            \<and> (r \<noteq> Inr () \<longrightarrow> r = Inl BadValueError \<and> s1 = s)"
    by (intro exI[of _ r] exI[of _ s1] exI[of _ q1]) simp
qed

theorem votesum_is_sum_of_latest_accepted_votes_witness:
  "map_of (quotes ex_store) 5 = Some ex_quote \<and> (5::nat) \<noteq> 0
   \<and> distinct (map fst (votes ex_store))
   \<and> votesum ex_quote = vote_total ex_store 5
   \<and> (\<exists>returned s' q'. cast_votes ex_store 5 ex_casts = (returned, s')
            \<and> map_of (quotes s') 5 = Some q'
            \<and> votesum q' = vote_total s' 5
            \<and> votesum q' = (\<Sum>em \<in> voters_on ex_store 5 \<union> email ` fst ` set ex_casts.
                  case latest_vote returned em of Some w \<Rightarrow> w | None \<Rightarrow> stored_vote ex_store 5 em))
   \<and> (\<exists>r s1 q1. set_vote ex_store 5 (Some fred) 1 = (r, s1)
            \<and> map_of (quotes s1) 5 = Some q1
            \<and> (r = Inr () \<longleftrightarrow> stored_vote ex_store 5 (email fred) = 1
                                 \<or> assignable ex_store ex_quote (stored_vote ex_store 5 (email fred)) 1)
            \<and> (r = Inr () \<longrightarrow> votesum q1 = votesum ex_quote + (1 - stored_vote ex_store 5 (email fred)))
            \<and> (r \<noteq> Inr () \<longrightarrow> r = Inl BadValueError \<and> s1 = ex_store))
   \<and> fst (cast_votes ex_store 5 ex_casts) = ex_casts
   \<and> map_option votesum (map_of (quotes (snd (cast_votes ex_store 5 ex_casts))) 5) = Some (- 2)
   \<and> fst (set_vote ex_store 5 (Some fred) 1) = Inr ()"
proof -
  have h1: "map_of (quotes ex_store) 5 = Some ex_quote" by (simp add: ex_store_def)
  have h0: "(5::nat) \<noteq> 0" by simp
  have h2: "distinct (map fst (votes ex_store))" by (simp add: ex_store_def)
  have h3: "votesum ex_quote = vote_total ex_store 5"
    by (simp add: ex_store_def ex_quote_def vote_total_def)
  have e1: "fst (cast_votes ex_store 5 ex_casts) = ex_casts" by code_simp
  have e2: "map_option votesum (map_of (quotes (snd (cast_votes ex_store 5 ex_casts))) 5) = Some (- 2)"
    by code_simp
  have e3: "fst (set_vote ex_store 5 (Some fred) 1) = Inr ()" by code_simp
  note c = votesum_is_sum_of_latest_accepted_votes[OF h1 h0 h2 h3, of ex_casts fred 1]
  show ?thesis
    by (rule conjI[OF h1 conjI[OF h0 conjI[OF h2 conjI[OF h3
          conjI[OF conjunct1[OF c] conjI[OF conjunct2[OF c] conjI[OF e1 conjI[OF e2 e3]]]]]]]])
qed

text \<open>
  Claim C2.  \<^verbatim>\<open>"%020d"\<close> prints a negative score as a minus sign and 19 digits, so
  the rank that \<^verbatim>\<open>set_vote\<close> stores for a negative score does not begin with a
  zero-padded decimal of 20 digits.  Fred votes \<open>- 6\<close> on a quote of day 1: the call
  returns normally and stores the votesum \<open>- 6\<close> and, for the score
  \<open>1 * DAY_SCALE - 6 = - 2\<close>, the rank \<^verbatim>\<open>-0000000000000000002|2008-10-02T12:00:00|a\<close>,
  which is no zero-padded decimal of 20 digits followed by the bar and the creation
  order.  (For a score from 0 up to \<open>10 ^ 20\<close> the stored rank is the zero-padded
  decimal of 20 digits, the bar and the creation order: \<open>set_vote_writes_rank\<close>.)
\<close>

theorem set_vote_rank_of_negative_score:
  "fst (set_vote ex_store 5 (Some fred) (- 6)) = Inr ()
   \<and> map_sum id (map_option created) (get_quote (snd (set_vote ex_store 5 (Some fred) (- 6))) 5)
        = Inr (Some 1)
   \<and> map_sum id (map_option votesum) (get_quote (snd (set_vote ex_store 5 (Some fred) (- 6))) 5)
        = Inr (Some (- 6))
   \<and> map_sum id (map_option creation_order) (get_quote (snd (set_vote ex_store 5 (Some fred) (- 6))) 5)
        = Inr (Some ''2008-10-02T12:00:00|a'')
   \<and> map_sum id (map_option rank) (get_quote (snd (set_vote ex_store 5 (Some fred) (- 6))) 5)
        = Inr (Some (Some ''-0000000000000000002|2008-10-02T12:00:00|a''))
   \<and> (\<forall>n. ''-0000000000000000002|2008-10-02T12:00:00|a''
            \<noteq> zero_padded_decimal 20 n @ ''|'' @ ''2008-10-02T12:00:00|a'')"
proof -
  have 1: "fst (set_vote ex_store 5 (Some fred) (- 6)) = Inr ()" by code_simp
  have 2: "map_sum id (map_option created) (get_quote (snd (set_vote ex_store 5 (Some fred) (- 6))) 5)
        = Inr (Some 1)" by code_simp
  have 3: "map_sum id (map_option votesum) (get_quote (snd (set_vote ex_store 5 (Some fred) (- 6))) 5)
        = Inr (Some (- 6))" by code_simp
  have 4: "map_sum id (map_option creation_order) (get_quote (snd (set_vote ex_store 5 (Some fred) (- 6))) 5)
        = Inr (Some ''2008-10-02T12:00:00|a'')" by code_simp
  have 5: "map_sum id (map_option rank) (get_quote (snd (set_vote ex_store 5 (Some fred) (- 6))) 5)
        = Inr (Some (Some ''-0000000000000000002|2008-10-02T12:00:00|a''))" by code_simp
  have 6: "\<forall>n. ''-0000000000000000002|2008-10-02T12:00:00|a''
            \<noteq> zero_padded_decimal 20 n @ ''|'' @ ''2008-10-02T12:00:00|a''"
    using sign_not_zero_padded[of 20] by simp
  show ?thesis by (rule conjI[OF 1 conjI[OF 2 conjI[OF 3 conjI[OF 4 conjI[OF 5 6]]]]])
qed

text \<open>
  Claim C3.  On an existing quote, a call whose value equals the caller's stored value
  (0 for no vote) returns normally and leaves the quotes (so votesum and rank), the votes
  and the cache as they were.  Whatever a call did, the same call made again returns
  what the first returned and changes nothing at all, so the votesum is the same after
  the two.
\<close>

theorem set_vote_same_value_noop:
  assumes q: "map_of (quotes s) quote_id = Some q" and id: "quote_id \<noteq> 0"
  shows "(stored_vote s quote_id (email u) = v \<longrightarrow>
            (\<exists>s'. set_vote s quote_id (Some u) v = (Inr (), s')
               \<and> quotes s' = quotes s \<and> votes s' = votes s \<and> memcache s' = memcache s))
       \<and> (\<exists>r s1. set_vote s quote_id (Some u) v = (r, s1)
               \<and> set_vote s1 quote_id (Some u) v = (r, s1))"
proof
  show "stored_vote s quote_id (email u) = v \<longrightarrow>
            (\<exists>s'. set_vote s quote_id (Some u) v = (Inr (), s')
               \<and> quotes s' = quotes s \<and> votes s' = votes s \<and> memcache s' = memcache s)"
    using txn_noop[OF q id] by (auto simp: set_vote_def)
next
  show "\<exists>r s1. set_vote s quote_id (Some u) v = (r, s1)
               \<and> set_vote s1 quote_id (Some u) v = (r, s1)"
    by (rule set_vote_twice)
qed

theorem set_vote_same_value_noop_witness:
  "map_of (quotes voted_store) 5 = Some (ex_quote\<lparr>rank := Some ''00000000000000000005|2008-10-02T12:00:00|a'', votesum := 1\<rparr>)
   \<and> (5::nat) \<noteq> 0
   \<and> stored_vote voted_store 5 (email fred) = 1
   \<and> (\<exists>s'. set_vote voted_store 5 (Some fred) 1 = (Inr (), s')
               \<and> quotes s' = quotes voted_store \<and> votes s' = votes voted_store
               \<and> memcache s' = memcache voted_store)
   \<and> (\<exists>r s1. set_vote voted_store 5 (Some fred) 1 = (r, s1)
               \<and> set_vote s1 5 (Some fred) 1 = (r, s1))
   \<and> set_vote ex_store 5 (Some fred) 1 = (Inr (), voted_store)
   \<and> set_vote voted_store 5 (Some fred) 1 = (Inr (), voted_store)"
proof -
  have h1: "map_of (quotes voted_store) 5 = Some (ex_quote\<lparr>rank := Some ''00000000000000000005|2008-10-02T12:00:00|a'', votesum := 1\<rparr>)"
    by (simp add: voted_store_def)
  have h0: "(5::nat) \<noteq> 0" by simp
  have h2: "stored_vote voted_store 5 (email fred) = 1"
    by (simp add: voted_store_def stored_vote_def fred_def)
  have e1: "set_vote ex_store 5 (Some fred) 1 = (Inr (), voted_store)" by code_simp
  have e2: "set_vote voted_store 5 (Some fred) 1 = (Inr (), voted_store)" by code_simp
  note c = set_vote_same_value_noop[OF h1 h0, of fred 1]
  have c1: "\<exists>s'. set_vote voted_store 5 (Some fred) 1 = (Inr (), s')
               \<and> quotes s' = quotes voted_store \<and> votes s' = votes voted_store
               \<and> memcache s' = memcache voted_store"
    using conjunct1[OF c] h2 by blast
  show ?thesis
    by (rule conjI[OF h1 conjI[OF h0 conjI[OF h2 conjI[OF c1 conjI[OF conjunct2[OF c] conjI[OF e1 e2]]]]]])
qed

text \<open>
  Claim C5.  For an id without a quote \<^verbatim>\<open>set_vote\<close> has no branch: whatever the
  value, the transaction raises, from the lookup of the vote under a parent of \<open>None\<close>
  (\<^verbatim>\<open>BadRequestError\<close>) or, for the id 0, from the lookup of the quote
  (\<^verbatim>\<open>BadKeyError\<close>).  The failure is an uncaught exception, not a returned result; the
  store is as it was.
\<close>

theorem set_vote_missing_quote_raises:
  assumes "map_of (quotes s) quote_id = None"
  shows "set_vote s quote_id (Some u) newvote
       = (Inl (if quote_id = 0 then BadKeyError else BadRequestError), s)"
  using assms by (simp add: set_vote_def txn_missing)

theorem set_vote_missing_quote_raises_witness:
  "map_of (quotes empty_store) 7 = None
   \<and> get_quote empty_store 7 = Inr None
   \<and> set_vote empty_store 7 (Some fred) 1 = (Inl BadRequestError, empty_store)
   \<and> set_vote empty_store 7 (Some fred) 0 = (Inl BadRequestError, empty_store)"
proof -
  have h: "map_of (quotes empty_store) 7 = None" by (simp add: empty_store_def)
  have g: "get_quote empty_store 7 = Inr None"
    by (simp add: get_quote_def get_by_id_def empty_store_def)
  show ?thesis
    using set_vote_missing_quote_raises[OF h, of fred 1]
      set_vote_missing_quote_raises[OF h, of fred 0] h g by simp
qed

text \<open>
  Claim C10.  Without a signed-in user \<^verbatim>\<open>set_vote\<close> returns at once: the whole
  store, the cache and the voter flags included, is unchanged.
\<close>

theorem set_vote_no_user_noop: "set_vote s quote_id None newvote = (Inr (), s)"
  by (simp add: set_vote_def)

subsection \<open>Adding\<close>




subsection \<open>Deleting\<close>

text \<open>
  Claim C8, as stated, at a concrete input: no quote has the id 0, the requester is
  neither an administrator nor a creator, and \<^verbatim>\<open>del_quote\<close> raises
  \<^verbatim>\<open>BadKeyError\<close>, from \<^verbatim>\<open>Quote.get_by_id\<close>.
\<close>

theorem del_quote_id_zero_raises_counterexample:
  "map_of (quotes ex_store) 0 = None
   \<and> \<not> is_current_user_admin ex_env
   \<and> del_quote ex_env ex_store 0 (Some barney) = (Inl BadKeyError, ex_store)
   \<and> fst (del_quote ex_env ex_store 0 (Some barney)) \<noteq> Inr ()"
  by (simp add: del_quote_def get_by_id_def ex_store_def ex_env_def)

text \<open>
  Claim C8, amended.  When the current user is not an administrator and the requester is
  not the creator of the quote stored under the id, if there is one, \<^verbatim>\<open>del_quote\<close>
  leaves the store unchanged.  It returns normally for every id but 0, whether a quote
  has the id or not; for the id 0 it raises \<^verbatim>\<open>BadKeyError\<close>.
\<close>

theorem del_quote_unauthorized_noop:
  assumes "\<not> is_current_user_admin e"
    and "\<forall>q. map_of (quotes s) quote_id = Some q \<longrightarrow> creator q \<noteq> requester"
  shows "del_quote e s quote_id requester = (if quote_id = 0 then Inl BadKeyError else Inr (), s)"
  using assms by (auto simp: del_quote_def get_by_id_def split: option.splits)

theorem del_quote_unauthorized_noop_witness:
  "\<not> is_current_user_admin ex_env
   \<and> map_of (quotes ex_store) 5 = Some ex_quote
   \<and> creator ex_quote \<noteq> Some barney
   \<and> del_quote ex_env ex_store 5 (Some barney) = (Inr (), ex_store)
   \<and> map_of (quotes ex_store) 7 = None
   \<and> del_quote ex_env ex_store 7 (Some barney) = (Inr (), ex_store)"
proof -
  have h1: "\<not> is_current_user_admin ex_env" by (simp add: ex_env_def)
  have h2: "map_of (quotes ex_store) 5 = Some ex_quote" by (simp add: ex_store_def)
  have h3: "creator ex_quote \<noteq> Some barney"
    by (simp add: ex_quote_def fred_def barney_def)
  have h4: "map_of (quotes ex_store) 7 = None" by (simp add: ex_store_def)
  have a: "\<forall>q. map_of (quotes ex_store) 5 = Some q \<longrightarrow> creator q \<noteq> Some barney"
    using h2 h3 by simp
  have b: "\<forall>q. map_of (quotes ex_store) 7 = Some q \<longrightarrow> creator q \<noteq> Some barney"
    using h4 by simp
  show ?thesis
    using del_quote_unauthorized_noop[OF h1 a] del_quote_unauthorized_noop[OF h1 b] h1 h2 h3 h4
    by simp
qed

subsection \<open>Recency listing\<close>

text \<open>
  Claim C6.  When the creation orders of the stored quotes are pairwise distinct, the
  reader that starts \<^verbatim>\<open>get_quotes_newest\<close> without an offset and follows every
  returned \<^verbatim>\<open>extra\<close> on the same store ends within one call more than there are
  quotes.  Its pages, put together, are the stored quotes in descending creation order:
  every quote once, none else, each creation order strictly below the one before.  Every
  page but the last has exactly \<^verbatim>\<open>PAGE_SIZE\<close> quotes and the last has at most that.
\<close>

theorem get_quotes_newest_pages_every_quote_once:
  assumes "distinct (map (\<lambda>q. creation_order (snd q)) (quotes s))"
  shows "\<exists>pages. page_through (Suc (length (quotes s))) s None = Some pages
     \<and> concat pages = rev (sort_key (\<lambda>q. creation_order (snd q)) (quotes s))
     \<and> set (concat pages) = set (quotes s)
     \<and> distinct (concat pages)
     \<and> sorted_wrt (\<lambda>a b. creation_order (snd b) < creation_order (snd a)) (concat pages)
     \<and> (\<forall>p \<in> set (butlast pages). length p = PAGE_SIZE)
     \<and> length (last pages) \<le> PAGE_SIZE"
proof -
  define L where "L = rev (sort_key order_key (quotes s))"
  have desc: "sorted_wrt (\<lambda>a b. order_key b < order_key a) L"
    unfolding L_def by (rule newest_listing_desc[OF assms])
  have setL: "set L = set (quotes s)" by (simp add: L_def)
  have lenL: "length L = length (quotes s)" by (simp add: L_def)
  have dL: "distinct L"
    using assms by (simp add: L_def distinct_map)
  have "\<exists>pages. page_through (Suc (length (quotes s))) s None = Some pages
      \<and> concat pages = L
      \<and> (\<forall>p \<in> set (butlast pages). length p = PAGE_SIZE)
      \<and> length (last pages) \<le> PAGE_SIZE"
  proof (cases "length L \<le> PAGE_SIZE")
    case True
    have "get_quotes_newest s None = (L, None)"
      using True by (simp add: get_quotes_newest_None[OF assms] L_def[symmetric] Let_def)
    then show ?thesis using True by simp
  next
    case False
    then have big: "PAGE_SIZE < length L" by simp
    have g: "get_quotes_newest s None = (take PAGE_SIZE L, Some (order_key (L ! PAGE_SIZE)))"
      using big by (simp add: get_quotes_newest_None[OF assms] L_def[symmetric] Let_def)
    obtain m where m: "length (quotes s) = Suc m"
      using big lenL by (cases "length (quotes s)") auto
    have fuel: "length L - PAGE_SIZE \<le> Suc m * PAGE_SIZE"
    proof -
      have "length L \<le> Suc m * PAGE_SIZE"
        using lenL m by (simp add: PAGE_SIZE_def)
      then show ?thesis by simp
    qed
    from page_through_from[OF L_def desc assms big fuel] obtain pages where
      p: "page_through (Suc m) s (Some (order_key (L ! PAGE_SIZE))) = Some pages"
      and ne: "pages \<noteq> []"
      and cc: "concat pages = drop PAGE_SIZE L"
      and full: "\<forall>p \<in> set (butlast pages). length p = PAGE_SIZE"
      and lst: "length (last pages) \<le> PAGE_SIZE"
      by blast
    let ?pg = "take PAGE_SIZE L"
    have 1: "page_through (Suc (length (quotes s))) s None = Some (?pg # pages)"
      using g p m by simp
    have 2: "concat (?pg # pages) = L" using cc by simp
    have 3: "length ?pg = PAGE_SIZE" using big by simp
    have 4: "\<forall>p \<in> set (butlast (?pg # pages)). length p = PAGE_SIZE"
      using full 3 ne by simp
    have 5: "length (last (?pg # pages)) \<le> PAGE_SIZE" using lst ne by simp
    show ?thesis using 1 2 4 5 by blast
  qed
  then obtain pages where
    p: "page_through (Suc (length (quotes s))) s None = Some pages"
    and cc: "concat pages = L"
    and full: "\<forall>p \<in> set (butlast pages). length p = PAGE_SIZE"
    and lst: "length (last pages) \<le> PAGE_SIZE"
    by blast
  have "concat pages = rev (sort_key order_key (quotes s))" using cc by (simp add: L_def)
  moreover have "set (concat pages) = set (quotes s)" using setL by (simp only: cc)
  moreover have "distinct (concat pages)" using dL by (simp only: cc)
  moreover have "sorted_wrt (\<lambda>a b. order_key b < order_key a) (concat pages)" using desc by (simp only: cc)
  ultimately show ?thesis using p full lst by blast
qed

theorem get_quotes_newest_pages_every_quote_once_witness:
  "distinct (map (\<lambda>q. creation_order (snd q)) (quotes many_quotes))
   \<and> (\<exists>pages. page_through (Suc (length (quotes many_quotes))) many_quotes None = Some pages
     \<and> concat pages = rev (sort_key (\<lambda>q. creation_order (snd q)) (quotes many_quotes))
     \<and> set (concat pages) = set (quotes many_quotes)
     \<and> distinct (concat pages)
     \<and> sorted_wrt (\<lambda>a b. creation_order (snd b) < creation_order (snd a)) (concat pages)
     \<and> (\<forall>p \<in> set (butlast pages). length p = PAGE_SIZE)
     \<and> length (last pages) \<le> PAGE_SIZE)
   \<and> map_option (map (map fst)) (page_through (Suc (length (quotes many_quotes))) many_quotes None)
       = Some [[21, 20, 19, 18, 17, 16, 15, 14, 13, 12, 11, 10, 9, 8, 7, 6, 5, 4, 3, 2], [1]]"
proof -
  have h: "distinct (map (\<lambda>q. creation_order (snd q)) (quotes many_quotes))"
    by code_simp
  have e: "map_option (map (map fst)) (page_through (Suc (length (quotes many_quotes))) many_quotes None)
       = Some [[21, 20, 19, 18, 17, 16, 15, 14, 13, 12, 11, 10, 9, 8, 7, 6, 5, 4, 3, 2], [1]]"
    by code_simp
  show ?thesis by (rule conjI[OF h conjI[OF get_quotes_newest_pages_every_quote_once[OF h] e]])
qed

subsection \<open>Ranked listing\<close>

text \<open>
  Claim C9.  \<^verbatim>\<open>get_quotes\<close> returns a page exactly for \<open>0 \<le> page < 20\<close>; for every
  other page it fails with \<^verbatim>\<open>AssertionError\<close>, whatever the store holds.
\<close>

theorem get_quotes_page_precondition: "(0 \<le> page \<and> page < 20 \<longrightarrow> (\<exists>r. get_quotes s page = Inr r)) \<and> (\<not> (0 \<le> page \<and> page < 20) \<longrightarrow> get_quotes s page = Inl AssertionError)"
  by (auto simp add: get_quotes_def Let_def)

theorem get_quotes_page_precondition_witness:
  "(0::int) \<le> 3 \<and> (3::int) < 20 \<and> (\<exists>r. get_quotes ex_store 3 = Inr r)
   \<and> \<not> (0 \<le> (20::int) \<and> (20::int) < 20) \<and> get_quotes ex_store 20 = Inl AssertionError"
  using get_quotes_page_precondition[of 3 ex_store] get_quotes_page_precondition[of 20 ex_store] by simp

text \<open>
  Claim C4.  \<^verbatim>\<open>"%020d"\<close> prints a negative number as a minus sign and 19 digits of
  its absolute value, so among negative scores the greater score has the smaller string:
  \<open>- 2 < - 1\<close>, yet the string for \<open>- 2\<close> is above the string for \<open>- 1\<close>.  Two quotes
  of day 1 voted to \<open>- 6\<close> and \<open>- 5\<close> get these two ranks, and \<^verbatim>\<open>get_quotes\<close> lists the
  quote of score \<open>- 2\<close> before the quote of score \<open>- 1\<close>.  (On scores from 0 up to
  \<open>10 ^ 20\<close> the strings are ordered as the scores: \<open>fmt_020d_mono_nonneg\<close>.)
\<close>

theorem rank_order_inverted_for_negative_scores:
  "(- 2 :: int) < - 1
   \<and> fmt_020d (- 2) = ''-0000000000000000002''
   \<and> fmt_020d (- 1) = ''-0000000000000000001''
   \<and> \<not> fmt_020d (- 2) < fmt_020d (- 1)
   \<and> map_sum id (map_option rank) (get_quote (snd (set_vote two_quotes 1 (Some fred) (- 6))) 1)
        = Inr (Some (Some ''-0000000000000000002|2008-10-02T12:00:00|a''))
   \<and> map_sum id (map_option rank) (get_quote (snd (set_vote two_quotes 2 (Some fred) (- 5))) 2)
        = Inr (Some (Some ''-0000000000000000001|2008-10-02T12:00:01|b''))
   \<and> map_sum id (map fst \<circ> fst)
        (get_quotes (snd (set_vote (snd (set_vote two_quotes 1 (Some fred) (- 6))) 2 (Some fred) (- 5))) 0)
        = Inr [1, 2]"
  by code_simp

end
